theory Spec2Isabelle
  imports Main
begin

section \<open>Data model of csp\_yield.py\<close>

text \<open>
  Python values are modelled as follows. A \<open>Dict[V, D]\<close> (an assignment) is a map
  \<open>'v \<rightharpoonup> 'd\<close>; a \<open>Dict[V, Set[D]]\<close> (the domains, the unassigned snapshot) is a map
  \<open>'v \<rightharpoonup> 'd set\<close>. The variable \<open>next_unassigned\<close> of the search holds either such a
  dict or Python's \<open>None\<close>, so a snapshot is an \<open>option\<close> of a domain map.
\<close>

type_synonym ('v, 'd) assignment = "'v \<rightharpoonup> 'd"
type_synonym ('v, 'd) domain_map = "'v \<rightharpoonup> 'd set"
type_synonym ('v, 'd) snapshot = "('v, 'd) domain_map option"

text \<open>
  Modelled from the spec: the class \<open>Constraint\<close> is imported from the module \<open>csp\<close>,
  which is not part of the sources. Following section 4.3 of the specification a
  constraint is its list of variables together with the two operations \<open>satisfied\<close>
  and \<open>propagate\<close>; both are pure and total. \<open>propagate\<close> receives whatever the search
  holds in \<open>next_unassigned\<close>, which may already be \<open>None\<close>.
\<close>

record ('v, 'd) constraint =
  cvariables :: "'v list"
  satisfied :: "('v, 'd) assignment \<Rightarrow> bool"
  propagate :: "'v \<Rightarrow> 'd \<Rightarrow> ('v, 'd) snapshot \<Rightarrow> ('v, 'd) snapshot"

text \<open>The fields of a \<open>CSP\<close> object as \<open>__init__\<close> creates them.\<close>

record ('v, 'd) CSP =
  variables :: "'v list"
  domains :: "('v, 'd) domain_map"
  constraints :: "'v \<rightharpoonup> ('v, 'd) constraint list"
  low_mark :: nat
  count :: nat

text \<open>
  The exceptions the code can raise: the two explicit \<open>LookupError\<close>s with their
  messages, and the \<open>KeyError\<close> of a failed dictionary subscript.
\<close>

datatype error = LookupError string | KeyError

text \<open>The keyword arguments of \<open>backtracking_search\<close>.\<close>

record config =
  search_strategy :: string
  propagate_constraints :: bool
  order_domain :: bool
  check_constraints :: bool

text \<open>
  Modelled from the spec: \<open>select_next_var\<close> is imported from the missing module \<open>csp\<close>.
  By section 4.2 it is a pure function of the strategy, the value-ordering flag and the
  unassigned snapshot that returns the next variable and the ordered sequence of its
  candidate values. It is a parameter of the search.
\<close>

type_synonym ('v, 'd) selector = "string \<Rightarrow> bool \<Rightarrow> ('v, 'd) domain_map \<Rightarrow> 'v \<times> 'd list"

section \<open>Construction and constraint registration\<close>

text \<open>The loop of \<open>__init__\<close>: every variable gets an empty constraint list and must
  have a domain entry.\<close>

fun init_loop ::
  "'v list \<Rightarrow> ('v, 'd) domain_map \<Rightarrow> ('v \<rightharpoonup> ('v, 'd) constraint list)
     \<Rightarrow> error + ('v \<rightharpoonup> ('v, 'd) constraint list)" where
  "init_loop [] doms cs = Inr cs"
| "init_loop (v # vs) doms cs =
     (let cs' = cs(v \<mapsto> []) in
      if doms v = None
      then Inl (LookupError ''Every variable should have a domain assigned to it.'')
      else init_loop vs doms cs')"

definition CSP_init :: "'v list \<Rightarrow> ('v, 'd) domain_map \<Rightarrow> error + ('v, 'd) CSP" where
  "CSP_init vs doms =
     (case init_loop vs doms Map.empty of
        Inl e \<Rightarrow> Inl e
      | Inr cs \<Rightarrow> Inr \<lparr>variables = vs, domains = doms, constraints = cs,
                      low_mark = length vs, count = 0\<rparr>)"

text \<open>
  \<open>add_constraint\<close> mutates the object while it loops, so the model returns the object
  as the call leaves it together with the exception raised, if any.
\<close>

fun add_loop ::
  "('v, 'd) constraint \<Rightarrow> 'v list \<Rightarrow> ('v, 'd) CSP \<Rightarrow> ('v, 'd) CSP \<times> error option" where
  "add_loop c [] csp = (csp, None)"
| "add_loop c (v # vs) csp =
     (if v \<notin> set (variables csp)
      then (csp, Some (LookupError ''Variable in constraint not in CSP''))
      else (case constraints csp v of
              None \<Rightarrow> (csp, Some KeyError)
            | Some cs \<Rightarrow> add_loop c vs (csp\<lparr>constraints := (constraints csp)(v \<mapsto> cs @ [c])\<rparr>)))"

definition add_constraint ::
  "('v, 'd) CSP \<Rightarrow> ('v, 'd) constraint \<Rightarrow> ('v, 'd) CSP \<times> error option" where
  "add_constraint csp c = add_loop c (cvariables c) csp"

section \<open>Consistency check\<close>

fun consistent_loop :: "('v, 'd) constraint list \<Rightarrow> ('v, 'd) assignment \<Rightarrow> bool" where
  "consistent_loop [] a = True"
| "consistent_loop (c # cs) a = (if \<not> satisfied c a then False else consistent_loop cs a)"

definition consistent :: "('v, 'd) CSP \<Rightarrow> 'v \<Rightarrow> ('v, 'd) assignment \<Rightarrow> error + bool" where
  "consistent csp variable a =
     (case constraints csp variable of
        None \<Rightarrow> Inl KeyError
      | Some cs \<Rightarrow> Inr (consistent_loop cs a))"

section \<open>Backtracking search\<close>

text \<open>Python truthiness of \<open>unassigned\<close>: \<open>None\<close> and the empty dict are both false.\<close>

definition falsy :: "('v, 'd) snapshot \<Rightarrow> bool" where
  "falsy u = (case u of None \<Rightarrow> True | Some m \<Rightarrow> dom m = {})"

text \<open>The inner loop over the constraints of the selected variable.\<close>

fun propagate_all ::
  "('v, 'd) constraint list \<Rightarrow> 'v \<Rightarrow> 'd \<Rightarrow> ('v, 'd) snapshot \<Rightarrow> ('v, 'd) snapshot" where
  "propagate_all [] var val u = u"
| "propagate_all (c # cs) var val u = propagate_all cs var val (propagate c var val u)"

text \<open>The value of \<open>next_unassigned\<close> after lines 75 to 79.\<close>

definition next_unassigned ::
  "('v, 'd) CSP \<Rightarrow> config \<Rightarrow> 'v \<Rightarrow> 'd \<Rightarrow> ('v, 'd) domain_map \<Rightarrow> error + ('v, 'd) snapshot" where
  "next_unassigned csp cfg var val m =
     (if propagate_constraints cfg
      then (case constraints csp var of
              None \<Rightarrow> Inl KeyError
            | Some cs \<Rightarrow> Inr (propagate_all cs var val (Some m)))
      else Inr (Some m))"

text \<open>
  The condition of line 81,
  \<open>next_unassigned and not check_constraints or self.consistent(next_var, extended_assignment)\<close>,
  which Python parses as \<open>(A and B) or C\<close>.
\<close>

definition recurse_condition ::
  "('v, 'd) CSP \<Rightarrow> config \<Rightarrow> 'v \<Rightarrow> ('v, 'd) assignment \<Rightarrow> ('v, 'd) snapshot \<Rightarrow> error + bool" where
  "recurse_condition csp cfg var ext nu =
     (if \<not> falsy nu \<and> \<not> check_constraints cfg then Inr True
      else consistent csp var ext)"

text \<open>
  The observable state of a run: the object (its \<open>low_mark\<close> and \<open>count\<close> change) and
  what has been printed, one pair of the number and the \<open>end\<close> string per \<open>print\<close>.
\<close>

type_synonym ('v, 'd) world = "('v, 'd) CSP \<times> (nat \<times> string) list"

definition progress :: "nat \<Rightarrow> ('v, 'd) world \<Rightarrow> ('v, 'd) world" where
  "progress nbr_left w =
     (case w of (csp, out) \<Rightarrow>
        if nbr_left \<le> low_mark csp
        then (let c = count csp + 1 in
              (csp\<lparr>low_mark := nbr_left, count := c\<rparr>,
               out @ [(nbr_left, if c mod 20 = 0 then [CHR 0x0A] else '' '')]))
        else (csp, out))"

text \<open>
  A run of the generator, consumed to its end, is the list of assignments it yields, the
  exception that ended it (if any) and the final state.
\<close>

type_synonym ('v, 'd) run = "('v, 'd) assignment list \<times> error option \<times> ('v, 'd) world"

text \<open>
  The loop \<open>for value in next_var_domain\<close>. The recursive call is the parameter \<open>rec\<close>;
  \<open>None\<close> means that the recursion did not return.
\<close>

fun for_values ::
  "(('v, 'd) assignment \<Rightarrow> ('v, 'd) snapshot \<Rightarrow> ('v, 'd) world \<Rightarrow> ('v, 'd) run option)
     \<Rightarrow> config \<Rightarrow> ('v, 'd) assignment \<Rightarrow> ('v, 'd) domain_map \<Rightarrow> 'v \<Rightarrow> 'd list
     \<Rightarrow> ('v, 'd) world \<Rightarrow> ('v, 'd) run option" where
  "for_values rec cfg a m var [] w = Some ([], None, w)"
| "for_values rec cfg a m var (val # vals) w =
     (let extended_assignment = a(var \<mapsto> val) in
      case next_unassigned (fst w) cfg var val m of
        Inl e \<Rightarrow> Some ([], Some e, w)
      | Inr nu \<Rightarrow>
          (case recurse_condition (fst w) cfg var extended_assignment nu of
             Inl e \<Rightarrow> Some ([], Some e, w)
           | Inr b \<Rightarrow>
               if b then
                 (case rec extended_assignment nu w of
                    None \<Rightarrow> None
                  | Some (sols, Some e, w') \<Rightarrow> Some (sols, Some e, w')
                  | Some (sols, None, w') \<Rightarrow>
                      (case for_values rec cfg a m var vals w' of
                         None \<Rightarrow> None
                       | Some (sols', e', w'') \<Rightarrow> Some (sols @ sols', e', w'')))
               else for_values rec cfg a m var vals w))"

text \<open>
  \<open>backtracking_search\<close>, with the nesting depth of the recursion bounded by the first
  argument: at depth 0 the call does not return.
\<close>

primrec backtracking_search ::
  "nat \<Rightarrow> ('v, 'd) selector \<Rightarrow> config \<Rightarrow> ('v, 'd) assignment \<Rightarrow> ('v, 'd) snapshot
     \<Rightarrow> ('v, 'd) world \<Rightarrow> ('v, 'd) run option" where
  "backtracking_search 0 sel cfg = (\<lambda>a u w. None)"
| "backtracking_search (Suc n) sel cfg = (\<lambda>a u w.
     case u of
       None \<Rightarrow> Some ([a], None, w)
     | Some m \<Rightarrow>
         if dom m = {} then Some ([a], None, w)
         else (let w1 = progress (card (dom m)) w in
               case sel (search_strategy cfg) (order_domain cfg) m of
                 (next_var, next_var_domain) \<Rightarrow>
                   for_values (backtracking_search n sel cfg) cfg a m next_var next_var_domain w1))"

section \<open>A run without the progress state\<close>

text \<open>
  The progress marks change \<open>low_mark\<close>, \<open>count\<close> and the printed text only. The
  following functions compute what a run yields and raises without them; they are shown
  below to agree with \<open>for_values\<close> and \<open>backtracking_search\<close>, and serve the proofs.
\<close>

type_synonym ('v, 'd) outcome = "('v, 'd) assignment list \<times> error option"

fun for_values_outcome ::
  "(('v, 'd) assignment \<Rightarrow> ('v, 'd) snapshot \<Rightarrow> ('v, 'd) outcome option)
     \<Rightarrow> ('v, 'd) CSP \<Rightarrow> config \<Rightarrow> ('v, 'd) assignment \<Rightarrow> ('v, 'd) domain_map \<Rightarrow> 'v \<Rightarrow> 'd list
     \<Rightarrow> ('v, 'd) outcome option" where
  "for_values_outcome rec csp cfg a m var [] = Some ([], None)"
| "for_values_outcome rec csp cfg a m var (val # vals) =
     (case next_unassigned csp cfg var val m of
        Inl e \<Rightarrow> Some ([], Some e)
      | Inr nu \<Rightarrow>
          (case recurse_condition csp cfg var (a(var \<mapsto> val)) nu of
             Inl e \<Rightarrow> Some ([], Some e)
           | Inr b \<Rightarrow>
               if b then
                 (case rec (a(var \<mapsto> val)) nu of
                    None \<Rightarrow> None
                  | Some (sols, Some e) \<Rightarrow> Some (sols, Some e)
                  | Some (sols, None) \<Rightarrow>
                      (case for_values_outcome rec csp cfg a m var vals of
                         None \<Rightarrow> None
                       | Some (sols', e') \<Rightarrow> Some (sols @ sols', e')))
               else for_values_outcome rec csp cfg a m var vals))"

primrec search_outcome ::
  "nat \<Rightarrow> ('v, 'd) CSP \<Rightarrow> ('v, 'd) selector \<Rightarrow> config \<Rightarrow> ('v, 'd) assignment
     \<Rightarrow> ('v, 'd) snapshot \<Rightarrow> ('v, 'd) outcome option" where
  "search_outcome 0 csp sel cfg = (\<lambda>a u. None)"
| "search_outcome (Suc n) csp sel cfg = (\<lambda>a u.
     case u of
       None \<Rightarrow> Some ([a], None)
     | Some m \<Rightarrow>
         if dom m = {} then Some ([a], None)
         else (case sel (search_strategy cfg) (order_domain cfg) m of
                 (next_var, next_var_domain) \<Rightarrow>
                   for_values_outcome (search_outcome n csp sel cfg) csp cfg a m
                     next_var next_var_domain))"

text \<open>What a run yields and raises, read off its result.\<close>

definition outcome_of :: "('v, 'd) run \<Rightarrow> ('v, 'd) outcome" where
  "outcome_of r = (fst r, fst (snd r))"

section \<open>Objects the program can build\<close>

text \<open>
  A \<open>CSP\<close> object exists after a construction that did not raise; afterwards it changes by
  calls of \<open>add_constraint\<close>, whether they return or raise.
\<close>

inductive constructed :: "('v, 'd) CSP \<Rightarrow> bool" where
  init: "CSP_init vs doms = Inr csp \<Longrightarrow> constructed csp"
| add: "constructed csp \<Longrightarrow> add_constraint csp c = (csp', e) \<Longrightarrow> constructed csp'"

text \<open>The constraints registered in an object.\<close>

definition registered :: "('v, 'd) CSP \<Rightarrow> ('v, 'd) constraint set" where
  "registered csp = {c. \<exists>v cs. constraints csp v = Some cs \<and> c \<in> set cs}"

section \<open>The contracts of the collaborators\<close>

text \<open>
  Section 4.3 on \<open>satisfied\<close>: a constraint with a variable that is not yet assigned
  holds, and the verdict depends on the values of the constraint's own variables only.
\<close>

definition sat_unassigned :: "('v, 'd) constraint \<Rightarrow> bool" where
  "sat_unassigned c = (\<forall>a. (\<exists>x\<in>set (cvariables c). a x = None) \<longrightarrow> satisfied c a)"

definition sat_local :: "('v, 'd) constraint \<Rightarrow> bool" where
  "sat_local c = (\<forall>a a'. (\<forall>x\<in>set (cvariables c). a x = a' x) \<longrightarrow> satisfied c a = satisfied c a')"

text \<open>
  Modelled from the spec: the propagation rule of section 4.3, computed from \<open>satisfied\<close>.
  Given that \<open>var\<close> was just bound to \<open>val\<close>, each other variable of the constraint
  loses the values that are inconsistent with that binding; the result is \<open>None\<close> if some
  variable is left with no candidate. The search never removes the selected variable from
  the snapshot itself, so by the invariant of section 3 (a variable is never both assigned
  and unassigned) the bound variable leaves the snapshot here.
\<close>

definition forward_check ::
  "'v list \<Rightarrow> (('v, 'd) assignment \<Rightarrow> bool) \<Rightarrow> 'v \<Rightarrow> 'd \<Rightarrow> ('v, 'd) snapshot \<Rightarrow> ('v, 'd) snapshot" where
  "forward_check vs sat var val u =
     (case u of
        None \<Rightarrow> None
      | Some m \<Rightarrow>
          (let m' = (\<lambda>x. if x = var then None
                         else if x \<in> set vs then map_option (Set.filter (\<lambda>w. sat [var \<mapsto> val, x \<mapsto> w])) (m x)
                         else m x)
           in if \<exists>x. m' x = Some {} then None else Some m'))"

definition conforms :: "('v, 'd) constraint \<Rightarrow> bool" where
  "conforms c = (sat_unassigned c \<and> sat_local c
                  \<and> propagate c = forward_check (cvariables c) (satisfied c))"

text \<open>Section 3: propagation never introduces a candidate value, and an absent snapshot
  stays absent.\<close>

definition only_removes :: "('v, 'd) constraint \<Rightarrow> bool" where
  "only_removes c = (\<forall>var val u m'. propagate c var val u = Some m' \<longrightarrow>
       (\<exists>m. u = Some m \<and> (\<forall>x D'. m' x = Some D' \<longrightarrow> (\<exists>D. m x = Some D \<and> D' \<subseteq> D))))"

text \<open>Section 4.2: the selected variable is unassigned and its candidate values come from
  its domain in the snapshot.\<close>

definition selects_from_snapshot :: "('v, 'd) selector \<Rightarrow> bool" where
  "selects_from_snapshot sel = (\<forall>s od m var vals. dom m \<noteq> {} \<longrightarrow> sel s od m = (var, vals) \<longrightarrow>
       (\<exists>D. m var = Some D \<and> set vals \<subseteq> D))"

text \<open>
  The precondition of termination: the selected variable is in the snapshot, and the
  snapshot handed to each recursive call has lost it and gained no other.
\<close>

definition shrinking :: "('v, 'd) CSP \<Rightarrow> ('v, 'd) selector \<Rightarrow> config \<Rightarrow> bool" where
  "shrinking csp sel cfg = (\<forall>m var vals. dom m \<noteq> {} \<longrightarrow>
       sel (search_strategy cfg) (order_domain cfg) m = (var, vals) \<longrightarrow>
       var \<in> dom m \<and>
       (\<forall>val\<in>set vals. \<forall>m'. next_unassigned csp cfg var val m = Inr (Some m') \<longrightarrow>
            dom m' \<subseteq> dom m - {var}))"

section \<open>Example problems\<close>

datatype var = A | B | C

text \<open>The default keyword arguments of \<open>backtracking_search\<close>.\<close>

definition default_config :: config where
  "default_config = \<lparr>search_strategy = ''ff'', propagate_constraints = True,
                      order_domain = True, check_constraints = False\<rparr>"

text \<open>
  Modelled from the spec: a selection policy for the example variables. The unassigned
  variables here have domains of equal size, so "fail-first" with ties broken by the
  original order and "natural" order agree: the first of \<open>A\<close>, \<open>B\<close>, \<open>C\<close> in the snapshot,
  with its candidate values in increasing order.
\<close>

definition select_first :: "(var, int) selector" where
  "select_first strategy od m =
     (let v = (if m A \<noteq> None then A else if m B \<noteq> None then B else C)
      in (v, case m v of None \<Rightarrow> [] | Some D \<Rightarrow> sorted_list_of_set D))"

text \<open>Modelled from the spec: the binary inequality \<open>x \<noteq> y\<close> of section 8.\<close>

definition neq_satisfied :: "'v \<Rightarrow> 'v \<Rightarrow> ('v, 'd) assignment \<Rightarrow> bool" where
  "neq_satisfied x y a =
     (case a x of None \<Rightarrow> True | Some p \<Rightarrow> (case a y of None \<Rightarrow> True | Some q \<Rightarrow> p \<noteq> q))"

definition neq_constraint :: "'v \<Rightarrow> 'v \<Rightarrow> ('v, 'd) constraint" where
  "neq_constraint x y = \<lparr>cvariables = [x, y], satisfied = neq_satisfied x y,
                          propagate = forward_check [x, y] (neq_satisfied x y)\<rparr>"

text \<open>Modelled from the spec: a constraint on one variable, \<open>x \<noteq> k\<close> for a constant \<open>k\<close>.\<close>

definition differs_satisfied :: "'v \<Rightarrow> 'd \<Rightarrow> ('v, 'd) assignment \<Rightarrow> bool" where
  "differs_satisfied x k a = (case a x of None \<Rightarrow> True | Some p \<Rightarrow> p \<noteq> k)"

definition differs_constraint :: "'v \<Rightarrow> 'd \<Rightarrow> ('v, 'd) constraint" where
  "differs_constraint x k = \<lparr>cvariables = [x], satisfied = differs_satisfied x k,
                              propagate = forward_check [x] (differs_satisfied x k)\<rparr>"

text \<open>The unsatisfiable example of section 8: \<open>A\<close> and \<open>B\<close> with domain \<open>{1}\<close> and \<open>A \<noteq> B\<close>.\<close>

definition doms_unsat :: "(var, int) domain_map" where
  "doms_unsat = [A \<mapsto> {1}, B \<mapsto> {1}]"

definition csp_unsat :: "(var, int) CSP" where
  "csp_unsat = \<lparr>variables = [A, B], domains = doms_unsat,
                 constraints = [A \<mapsto> [neq_constraint A B], B \<mapsto> [neq_constraint A B]],
                 low_mark = 2, count = 0\<rparr>"

text \<open>A problem with a constraint on one variable: \<open>A \<noteq> 3\<close> and \<open>A \<noteq> B\<close>, where the
  domain of \<open>A\<close> is \<open>{3}\<close>.\<close>

definition doms_unary :: "(var, int) domain_map" where
  "doms_unary = [A \<mapsto> {3}, B \<mapsto> {1}]"

definition csp_unary :: "(var, int) CSP" where
  "csp_unary = \<lparr>variables = [A, B], domains = doms_unary,
                 constraints = [A \<mapsto> [differs_constraint A 3, neq_constraint A B],
                                B \<mapsto> [neq_constraint A B]],
                 low_mark = 2, count = 0\<rparr>"

text \<open>A problem with one variable, and a constraint that also names a variable the
  problem does not have.\<close>

definition csp_single :: "(var, int) CSP" where
  "csp_single = \<lparr>variables = [A], domains = [A \<mapsto> {1}], constraints = [A \<mapsto> []],
                  low_mark = 1, count = 0\<rparr>"

text \<open>The satisfiable example of section 8: \<open>A\<close> and \<open>B\<close> with domain \<open>{1, 2}\<close> and
  \<open>A \<noteq> B\<close>.\<close>

definition doms_sat :: "(var, int) domain_map" where
  "doms_sat = [A \<mapsto> {1, 2}, B \<mapsto> {1, 2}]"

definition csp_sat :: "(var, int) CSP" where
  "csp_sat = \<lparr>variables = [A, B], domains = doms_sat,
               constraints = [A \<mapsto> [neq_constraint A B], B \<mapsto> [neq_constraint A B]],
               low_mark = 2, count = 0\<rparr>"

text \<open>A problem in which the domain entry of \<open>B\<close> is present and empty.\<close>

definition doms_hollow :: "(var, int) domain_map" where
  "doms_hollow = [A \<mapsto> {1}, B \<mapsto> {}]"

definition csp_hollow :: "(var, int) CSP" where
  "csp_hollow = \<lparr>variables = [A, B], domains = doms_hollow,
                  constraints = [A \<mapsto> [neq_constraint A B], B \<mapsto> [neq_constraint A B]],
                  low_mark = 2, count = 0\<rparr>"

text \<open>The default arguments with the secondary check switched on.\<close>

definition checking_config :: config where
  "checking_config = \<lparr>search_strategy = ''ff'', propagate_constraints = True,
                       order_domain = True, check_constraints = True\<rparr>"

section \<open>Construction\<close>

lemma init_loop_result:
  "init_loop vs doms cs =
     (if \<exists>v\<in>set vs. doms v = None
      then Inl (LookupError ''Every variable should have a domain assigned to it.'')
      else Inr (\<lambda>v. if v \<in> set vs then Some [] else cs v))"
proof (induction vs arbitrary: cs)
  case Nil
  show ?case by simp
next
  case (Cons x xs)
  show ?case
    by (auto simp: Cons.IH Let_def fun_eq_iff)
qed

lemma CSP_init_result:
  "CSP_init vs doms =
     (if \<exists>v\<in>set vs. doms v = None
      then Inl (LookupError ''Every variable should have a domain assigned to it.'')
      else Inr \<lparr>variables = vs, domains = doms,
               constraints = (\<lambda>v. if v \<in> set vs then Some [] else None),
               low_mark = length vs, count = 0\<rparr>)"
  by (simp add: CSP_init_def init_loop_result)

text \<open>
  C5. Construction raises the \<open>LookupError\<close> for a missing domain (the specification's
  MissingDomainError) exactly when some variable of the list has no entry in the domain
  map; otherwise it returns the object, with an empty constraint list for every variable.
\<close>

theorem CSP_init_raises_iff:
  "CSP_init vs doms =
     (if \<exists>v\<in>set vs. v \<notin> dom doms
      then Inl (LookupError ''Every variable should have a domain assigned to it.'')
      else Inr \<lparr>variables = vs, domains = doms,
               constraints = (\<lambda>v. if v \<in> set vs then Some [] else None),
               low_mark = length vs, count = 0\<rparr>)"
  by (simp add: CSP_init_result domIff)

theorem CSP_init_raises_iff_witness:
  "CSP_init [A, B, C] [A \<mapsto> {1::int}, B \<mapsto> {1}]
     = Inl (LookupError ''Every variable should have a domain assigned to it.'')
   \<and> CSP_init [A, B] [A \<mapsto> {1::int}, B \<mapsto> {1}]
     = Inr \<lparr>variables = [A, B], domains = [A \<mapsto> {1::int}, B \<mapsto> {1}],
            constraints = (\<lambda>v. if v \<in> set [A, B] then Some [] else None),
            low_mark = length [A, B], count = 0\<rparr>"
  using CSP_init_raises_iff [of "[A, B, C]" "[A \<mapsto> {1::int}, B \<mapsto> {1}]"]
        CSP_init_raises_iff [of "[A, B]" "[A \<mapsto> {1::int}, B \<mapsto> {1}]"]
  by simp

section \<open>Constraint registration\<close>

lemma add_loop_result:
  "set (variables csp) \<subseteq> dom (constraints csp) \<Longrightarrow>
   add_loop c vs csp =
     (csp\<lparr>constraints := (\<lambda>v. map_option
         (\<lambda>cs. cs @ replicate (count_list (takeWhile (\<lambda>x. x \<in> set (variables csp)) vs) v) c)
         (constraints csp v))\<rparr>,
      if set vs \<subseteq> set (variables csp) then None
      else Some (LookupError ''Variable in constraint not in CSP''))"
proof (induction vs arbitrary: csp)
  case Nil
  show ?case by (simp add: option.map_ident)
next
  case (Cons x xs)
  show ?case
  proof (cases "x \<in> set (variables csp)")
    case False
    then show ?thesis by (simp add: option.map_ident)
  next
    case True
    with Cons.prems obtain cs where cs: "constraints csp x = Some cs" by auto
    let ?csp = "csp\<lparr>constraints := (constraints csp)(x \<mapsto> cs @ [c])\<rparr>"
    have sub: "set (variables ?csp) \<subseteq> dom (constraints ?csp)"
      using Cons.prems by auto
    have "add_loop c (x # xs) csp = add_loop c xs ?csp"
      using True cs by simp
    also note Cons.IH [OF sub]
    finally show ?thesis
      using True cs by (auto simp: fun_eq_iff replicate_append_same split: option.splits)
  qed
qed

lemma constructed_dom: "constructed csp \<Longrightarrow> dom (constraints csp) = set (variables csp)"
proof (induction rule: constructed.induct)
  case (init vs doms csp)
  then show ?case
    by (auto simp: CSP_init_result split: if_splits)
next
  case (add csp c csp' e)
  then have "set (variables csp) \<subseteq> dom (constraints csp)" by simp
  from add_loop_result [OF this, of c "cvariables c"] add.hyps(2)
  have "csp' = csp\<lparr>constraints := (\<lambda>v. map_option
         (\<lambda>cs. cs @ replicate (count_list (takeWhile (\<lambda>x. x \<in> set (variables csp)) (cvariables c)) v) c)
         (constraints csp v))\<rparr>"
    by (simp add: add_constraint_def)
  then have "variables csp' = variables csp" and "dom (constraints csp') = dom (constraints csp)"
    by (auto simp: dom_def)
  with add.IH show ?case by simp
qed

lemma add_constraint_eq:
  assumes "constructed csp"
  shows "add_constraint csp c =
     (csp\<lparr>constraints := (\<lambda>v. map_option
         (\<lambda>cs. cs @ replicate (count_list (takeWhile (\<lambda>x. x \<in> set (variables csp)) (cvariables c)) v) c)
         (constraints csp v))\<rparr>,
      if set (cvariables c) \<subseteq> set (variables csp) then None
      else Some (LookupError ''Variable in constraint not in CSP''))"
proof -
  have "set (variables csp) \<subseteq> dom (constraints csp)"
    using constructed_dom [OF assms] by simp
  then show ?thesis
    unfolding add_constraint_def by (rule add_loop_result)
qed

lemma csp_single_constructed: "constructed csp_single"
proof -
  have "CSP_init [A] [A \<mapsto> {1::int}] = Inr csp_single"
    by (simp add: CSP_init_result csp_single_def fun_eq_iff)
  then show ?thesis by (rule constructed.init)
qed

text \<open>
  C6. On an object the program has built, \<open>add_constraint\<close> raises the \<open>LookupError\<close> for
  an unknown variable (the specification's UnknownVariableError) exactly when the
  constraint names a variable outside the variable list, and it raises nothing else. When
  every named variable is known, the constraint is appended to the list of each of them,
  once per occurrence, and the other lists stay as they are.
\<close>

theorem add_constraint_raises_iff:
  assumes "constructed csp"
  shows "snd (add_constraint csp c) =
           (if set (cvariables c) \<subseteq> set (variables csp) then None
            else Some (LookupError ''Variable in constraint not in CSP''))
         \<and> (set (cvariables c) \<subseteq> set (variables csp) \<longrightarrow>
              fst (add_constraint csp c) = csp\<lparr>constraints := (\<lambda>v. map_option
                 (\<lambda>cs. cs @ replicate (count_list (cvariables c) v) c) (constraints csp v))\<rparr>
              \<and> (\<forall>v\<in>set (cvariables c).
                    \<exists>cs. constraints (fst (add_constraint csp c)) v = Some cs \<and> c \<in> set cs))"
proof -
  have sub: "set (variables csp) \<subseteq> dom (constraints csp)"
    using constructed_dom [OF assms] by simp
  note r = add_constraint_eq [OF assms, of c]
  have tw: "set (cvariables c) \<subseteq> set (variables csp) \<Longrightarrow>
      takeWhile (\<lambda>x. x \<in> set (variables csp)) (cvariables c) = cvariables c"
    by (auto simp: takeWhile_eq_all_conv)
  have reg: "\<exists>cs. constraints (fst (add_constraint csp c)) v = Some cs \<and> c \<in> set cs"
    if "set (cvariables c) \<subseteq> set (variables csp)" and "v \<in> set (cvariables c)" for v
  proof -
    from that sub obtain cs where cs: "constraints csp v = Some cs" by blast
    have "count_list (cvariables c) v \<noteq> 0" using that(2) by (simp add: count_list_0_iff)
    then have "0 < count_list (cvariables c) v" by simp
    then show ?thesis
      using cs that(1) by (simp add: r tw)
  qed
  show ?thesis
    using reg by (simp add: r tw)
qed

theorem add_constraint_raises_iff_witness:
  "constructed csp_single
   \<and> snd (add_constraint csp_single (differs_constraint A 3)) = None
   \<and> constraints (fst (add_constraint csp_single (differs_constraint A 3))) A
       = Some [differs_constraint A 3]
   \<and> snd (add_constraint csp_single (neq_constraint A B))
       = Some (LookupError ''Variable in constraint not in CSP'')"
  using add_constraint_raises_iff [OF csp_single_constructed, of "differs_constraint A 3"]
        add_constraint_raises_iff [OF csp_single_constructed, of "neq_constraint A B"]
        csp_single_constructed
  by (simp add: csp_single_def differs_constraint_def neq_constraint_def)

text \<open>
  C7, as claimed, fails: a registration that raises is not atomic. With the single
  variable \<open>A\<close>, registering \<open>A \<noteq> B\<close> raises because of \<open>B\<close>, after the constraint has
  been appended to the list of \<open>A\<close>.
\<close>

theorem add_constraint_not_atomic:
  "snd (add_constraint csp_single (neq_constraint A B))
       = Some (LookupError ''Variable in constraint not in CSP'')
   \<and> constraints csp_single A = Some []
   \<and> constraints (fst (add_constraint csp_single (neq_constraint A B))) A
       = Some [neq_constraint A B]"
  by (simp add: add_constraint_def csp_single_def neq_constraint_def)

text \<open>
  C7, amended. When \<open>add_constraint\<close> raises, the constraint's variable list splits at its
  first unknown variable; the constraint has been appended, once per occurrence, to the
  list of each variable before that point, and nothing else in the object has changed.
  The constraint lists are as they were before the call exactly when the first variable
  the constraint names is the unknown one.
\<close>

theorem add_constraint_failure_state:
  assumes "constructed csp" and "snd (add_constraint csp c) \<noteq> None"
  shows "\<exists>pre z rest. cvariables c = pre @ z # rest
           \<and> set pre \<subseteq> set (variables csp) \<and> z \<notin> set (variables csp)
           \<and> fst (add_constraint csp c) = csp\<lparr>constraints := (\<lambda>v. map_option
                 (\<lambda>cs. cs @ replicate (count_list pre v) c) (constraints csp v))\<rparr>
           \<and> (constraints (fst (add_constraint csp c)) = constraints csp \<longleftrightarrow> pre = [])"
proof -
  have sub: "set (variables csp) \<subseteq> dom (constraints csp)"
    using constructed_dom [OF assms(1)] by simp
  note r = add_constraint_eq [OF assms(1), of c]
  let ?P = "\<lambda>x. x \<in> set (variables csp)"
  let ?pre = "takeWhile ?P (cvariables c)"
  let ?post = "dropWhile ?P (cvariables c)"
  from assms(2) have nsub: "\<not> set (cvariables c) \<subseteq> set (variables csp)"
    by (auto simp: r split: if_splits)
  then have ne: "?post \<noteq> []" by auto
  then obtain z rest where post: "?post = z # rest" by (cases ?post) auto
  have z: "z \<notin> set (variables csp)"
    using hd_dropWhile [OF ne] post by simp
  have split: "cvariables c = ?pre @ z # rest"
    using takeWhile_dropWhile_id [of ?P "cvariables c"] post by simp
  have pre: "set ?pre \<subseteq> set (variables csp)"
    by (auto dest: set_takeWhileD)
  have st: "fst (add_constraint csp c) = csp\<lparr>constraints := (\<lambda>v. map_option
                 (\<lambda>cs. cs @ replicate (count_list ?pre v) c) (constraints csp v))\<rparr>"
    by (simp add: r)
  have iff: "constraints (fst (add_constraint csp c)) = constraints csp \<longleftrightarrow> ?pre = []"
  proof
    assume eq: "constraints (fst (add_constraint csp c)) = constraints csp"
    show "?pre = []"
    proof (rule ccontr)
      assume "?pre \<noteq> []"
      then obtain x xs where xs: "?pre = x # xs" by (cases ?pre) auto
      then have "x \<in> set ?pre" by simp
      with pre sub obtain cs where cs: "constraints csp x = Some cs" by blast
      have "constraints (fst (add_constraint csp c)) x = Some (cs @ replicate (count_list ?pre x) c)"
        by (simp add: st cs)
      with eq cs have "replicate (count_list ?pre x) c = []" by simp
      then show False using xs by simp
    qed
  next
    assume "?pre = []"
    then show "constraints (fst (add_constraint csp c)) = constraints csp"
      by (simp add: st fun_eq_iff option.map_ident)
  qed
  from split pre z st iff show ?thesis by blast
qed

theorem add_constraint_failure_state_witness:
  "constructed csp_single \<and> snd (add_constraint csp_single (neq_constraint A B)) \<noteq> None
   \<and> (\<exists>pre z rest. cvariables (neq_constraint A B :: (var, int) constraint) = pre @ z # rest
           \<and> set pre \<subseteq> set (variables csp_single) \<and> z \<notin> set (variables csp_single)
           \<and> fst (add_constraint csp_single (neq_constraint A B))
               = csp_single\<lparr>constraints := (\<lambda>v. map_option
                   (\<lambda>cs. cs @ replicate (count_list pre v) (neq_constraint A B))
                   (constraints csp_single v))\<rparr>
           \<and> (constraints (fst (add_constraint csp_single (neq_constraint A B)))
                = constraints csp_single \<longleftrightarrow> pre = []))"
proof -
  have h: "snd (add_constraint csp_single (neq_constraint A B)) \<noteq> None"
    by (simp add: add_constraint_def csp_single_def neq_constraint_def)
  from add_constraint_failure_state [OF csp_single_constructed h] csp_single_constructed h
  show ?thesis by blast
qed

section \<open>The search and its outcome\<close>

lemma next_unassigned_cong:
  "constraints csp = constraints csp' \<Longrightarrow>
   next_unassigned csp cfg var val m = next_unassigned csp' cfg var val m"
  by (simp add: next_unassigned_def)

lemma recurse_condition_cong:
  "constraints csp = constraints csp' \<Longrightarrow>
   recurse_condition csp cfg var ext nu = recurse_condition csp' cfg var ext nu"
  by (simp add: recurse_condition_def consistent_def)

lemma constraints_progress: "constraints (fst (progress k w)) = constraints (fst w)"
  by (cases w) (simp add: progress_def Let_def)

lemma for_values_outcome_cong:
  assumes "constraints csp = constraints csp'"
  shows "for_values_outcome rec csp cfg a m var vals = for_values_outcome rec csp' cfg a m var vals"
proof (induction vals)
  case Nil
  show ?case by simp
next
  case (Cons val vals)
  show ?case
    by (simp add: Cons.IH next_unassigned_cong [OF assms] recurse_condition_cong [OF assms]
          split: sum.splits option.splits prod.splits)
qed

lemma search_outcome_cong:
  assumes "constraints csp = constraints csp'"
  shows "search_outcome n csp sel cfg = search_outcome n csp' sel cfg"
proof (induction n)
  case 0
  show ?case by simp
next
  case (Suc n)
  show ?case
    by (simp add: Suc.IH for_values_outcome_cong [OF assms] fun_eq_iff
          split: option.splits prod.splits)
qed

text \<open>The loop agrees with its outcome, if the recursive call does.\<close>

lemma for_values_refines:
  assumes rec: "\<And>a' u' w'. constraints (fst w') = constraints csp \<Longrightarrow>
             map_option outcome_of (rec a' u' w') = rec' a' u'
             \<and> (\<forall>r. rec a' u' w' = Some r \<longrightarrow> constraints (fst (snd (snd r))) = constraints csp)"
    and w: "constraints (fst w) = constraints csp"
  shows "map_option outcome_of (for_values rec cfg a m var vals w)
           = for_values_outcome rec' csp cfg a m var vals
         \<and> (\<forall>r. for_values rec cfg a m var vals w = Some r
                \<longrightarrow> constraints (fst (snd (snd r))) = constraints csp)"
  using w
proof (induction vals arbitrary: w)
  case Nil
  then show ?case by (simp add: outcome_of_def)
next
  case (Cons val vals)
  note nu = next_unassigned_cong [OF Cons.prems, of cfg var val m]
  show ?case
  proof (cases "next_unassigned csp cfg var val m")
    case (Inl e)
    then show ?thesis using nu Cons.prems by (simp add: outcome_of_def)
  next
    case (Inr nu')
    note rc = recurse_condition_cong [OF Cons.prems, of cfg var "a(var \<mapsto> val)" nu']
    show ?thesis
    proof (cases "recurse_condition csp cfg var (a(var \<mapsto> val)) nu'")
      case (Inl e)
      then show ?thesis using nu rc Inr Cons.prems by (simp add: outcome_of_def)
    next
      case b: (Inr b)
      show ?thesis
      proof (cases b)
        case False
        then show ?thesis using nu rc Inr b Cons.IH [OF Cons.prems] by simp
      next
        case True
        note r = rec [OF Cons.prems, of "a(var \<mapsto> val)" nu']
        show ?thesis
        proof (cases "rec (a(var \<mapsto> val)) nu' w")
          case None
          then show ?thesis using nu rc Inr b True r by simp
        next
          case (Some res)
          obtain sols e w' where res: "res = (sols, e, w')" by (cases res) auto
          from r Some res have w': "constraints (fst w') = constraints csp" by simp
          from r Some res have r': "rec' (a(var \<mapsto> val)) nu' = Some (sols, e)"
            by (simp add: outcome_of_def)
          show ?thesis
          proof (cases e)
            case (Some err)
            then show ?thesis
              using nu rc Inr b True \<open>rec (a(var \<mapsto> val)) nu' w = Some res\<close> res r' w'
              by (simp add: outcome_of_def)
          next
            case None
            note ih = Cons.IH [OF w']
            show ?thesis
            proof (cases "for_values rec cfg a m var vals w'")
              case None
              then show ?thesis
                using nu rc Inr b True \<open>rec (a(var \<mapsto> val)) nu' w = Some res\<close> res r' ih \<open>e = None\<close>
                by simp
            next
              case (Some res2)
              obtain sols2 e2 w2 where res2: "res2 = (sols2, e2, w2)" by (cases res2) auto
              from ih Some res2
              have "for_values_outcome rec' csp cfg a m var vals = Some (sols2, e2)"
                and "constraints (fst w2) = constraints csp"
                by (auto simp: outcome_of_def)
              then show ?thesis
                using nu rc Inr b True \<open>rec (a(var \<mapsto> val)) nu' w = Some res\<close> res r' Some res2
                  \<open>e = None\<close>
                by (simp add: outcome_of_def)
            qed
          qed
        qed
      qed
    qed
  qed
qed

lemma search_refines:
  "constraints (fst w) = constraints csp \<Longrightarrow>
   map_option outcome_of (backtracking_search n sel cfg a u w) = search_outcome n csp sel cfg a u
   \<and> (\<forall>r. backtracking_search n sel cfg a u w = Some r
          \<longrightarrow> constraints (fst (snd (snd r))) = constraints csp)"
proof (induction n arbitrary: a u w)
  case 0
  show ?case by simp
next
  case (Suc n)
  show ?case
  proof (cases u)
    case None
    then show ?thesis using Suc.prems by (simp add: outcome_of_def)
  next
    case (Some m)
    show ?thesis
    proof (cases "dom m = {}")
      case True
      then show ?thesis using Some Suc.prems by (simp add: outcome_of_def)
    next
      case False
      obtain var vals where sel: "sel (search_strategy cfg) (order_domain cfg) m = (var, vals)"
        by (cases "sel (search_strategy cfg) (order_domain cfg) m") auto
      have w1: "constraints (fst (progress (card (dom m)) w)) = constraints csp"
        using Suc.prems by (simp add: constraints_progress)
      from for_values_refines [where rec = "backtracking_search n sel cfg"
            and rec' = "search_outcome n csp sel cfg" and csp = csp, OF Suc.IH w1]
      show ?thesis
        using Some False sel by (simp add: Let_def)
    qed
  qed
qed

lemma for_values_mono:
  assumes rec: "\<And>a' u' w' r'. rec a' u' w' = Some r' \<Longrightarrow> rec2 a' u' w' = Some r'"
  shows "for_values rec cfg a m var vals w = Some r \<Longrightarrow> for_values rec2 cfg a m var vals w = Some r"
proof (induction vals arbitrary: w r)
  case Nil
  then show ?case by simp
next
  case (Cons val vals)
  show ?case
  proof (cases "next_unassigned (fst w) cfg var val m")
    case (Inl e)
    then show ?thesis using Cons.prems by simp
  next
    case (Inr nu)
    show ?thesis
    proof (cases "recurse_condition (fst w) cfg var (a(var \<mapsto> val)) nu")
      case (Inl e)
      then show ?thesis using Inr Cons.prems by simp
    next
      case b: (Inr b)
      show ?thesis
      proof (cases b)
        case False
        then show ?thesis using Inr b Cons.prems Cons.IH by simp
      next
        case True
        from Cons.prems Inr b True
        obtain sols e w' where r1: "rec (a(var \<mapsto> val)) nu w = Some (sols, e, w')"
          by (cases "rec (a(var \<mapsto> val)) nu w") auto
        note r2 = rec [OF r1]
        show ?thesis
        proof (cases e)
          case (Some err)
          with Cons.prems Inr b True r1 have "r = (sols, Some err, w')" by simp
          then show ?thesis using Inr b True r2 Some by simp
        next
          case None
          with Cons.prems Inr b True r1
          obtain res where f1: "for_values rec cfg a m var vals w' = Some res"
            by (cases "for_values rec cfg a m var vals w'") auto
          note f2 = Cons.IH [OF f1]
          obtain sols2 e2 w2 where res: "res = (sols2, e2, w2)" by (cases res) auto
          from Cons.prems Inr b True r1 None f1 res have "r = (sols @ sols2, e2, w2)" by simp
          then show ?thesis using Inr b True r2 None f2 res by simp
        qed
      qed
    qed
  qed
qed

lemma search_mono_Suc:
  "backtracking_search n sel cfg a u w = Some r \<Longrightarrow> backtracking_search (Suc n) sel cfg a u w = Some r"
proof (induction n arbitrary: a u w r)
  case 0
  then show ?case by simp
next
  case (Suc n)
  show ?case
  proof (cases u)
    case None
    then show ?thesis using Suc.prems by simp
  next
    case (Some m)
    show ?thesis
    proof (cases "dom m = {}")
      case True
      then show ?thesis using Some Suc.prems by simp
    next
      case False
      obtain var vals where sel: "sel (search_strategy cfg) (order_domain cfg) m = (var, vals)"
        by (cases "sel (search_strategy cfg) (order_domain cfg) m") auto
      from Suc.prems Some False sel
      have "for_values (backtracking_search n sel cfg) cfg a m var vals (progress (card (dom m)) w) = Some r"
        by (simp add: Let_def)
      then have "for_values (backtracking_search (Suc n) sel cfg) cfg a m var vals (progress (card (dom m)) w) = Some r"
        by (rule for_values_mono [rotated]) (rule Suc.IH)
      then show ?thesis
        using Some False sel by (simp add: Let_def)
    qed
  qed
qed

lemma search_mono:
  "backtracking_search n sel cfg a u w = Some r \<Longrightarrow> n \<le> k \<Longrightarrow> backtracking_search k sel cfg a u w = Some r"
proof (induction k)
  case 0
  then show ?case by simp
next
  case (Suc k)
  show ?case
  proof (cases "n = Suc k")
    case True
    then show ?thesis using Suc.prems by simp
  next
    case False
    with Suc.prems have "n \<le> k" by simp
    from search_mono_Suc [OF Suc.IH [OF Suc.prems(1) this]] show ?thesis .
  qed
qed

text \<open>An invariant of the search tree holds at every leaf.\<close>

lemma for_values_outcome_invariant:
  assumes rec: "\<And>a' u' sols' e'. rec a' u' = Some (sols', e') \<Longrightarrow> Inv a' u' \<Longrightarrow> \<forall>s\<in>set sols'. Q s"
    and step: "\<And>val nu. val \<in> set vals \<Longrightarrow> next_unassigned csp cfg var val m = Inr nu \<Longrightarrow>
                 recurse_condition csp cfg var (a(var \<mapsto> val)) nu = Inr True \<Longrightarrow> Inv (a(var \<mapsto> val)) nu"
    and run: "for_values_outcome rec csp cfg a m var vals = Some (sols, e)"
  shows "\<forall>s\<in>set sols. Q s"
  using step run
proof (induction vals arbitrary: sols e)
  case Nil
  then show ?case by simp
next
  case (Cons val vals)
  have step': "Inv (a(var \<mapsto> val')) nu"
    if "val' \<in> set vals" and "next_unassigned csp cfg var val' m = Inr nu"
      and "recurse_condition csp cfg var (a(var \<mapsto> val')) nu = Inr True" for val' nu
  proof (rule Cons.prems(1))
    show "val' \<in> set (val # vals)" using that(1) by simp
  qed (rule that(2), rule that(3))
  have ih: "\<forall>s\<in>set sols'. Q s"
    if "for_values_outcome rec csp cfg a m var vals = Some (sols', e')" for sols' e'
  proof (rule Cons.IH [OF _ that])
    fix val' nu
    assume "val' \<in> set vals" and "next_unassigned csp cfg var val' m = Inr nu"
      and "recurse_condition csp cfg var (a(var \<mapsto> val')) nu = Inr True"
    then show "Inv (a(var \<mapsto> val')) nu" by (rule step')
  qed
  show ?case
  proof (cases "next_unassigned csp cfg var val m")
    case (Inl err)
    then show ?thesis using Cons.prems(2) by simp
  next
    case (Inr nu)
    show ?thesis
    proof (cases "recurse_condition csp cfg var (a(var \<mapsto> val)) nu")
      case (Inl err)
      then show ?thesis using Inr Cons.prems(2) by simp
    next
      case b: (Inr b)
      show ?thesis
      proof (cases b)
        case False
        with Cons.prems(2) Inr b
        have "for_values_outcome rec csp cfg a m var vals = Some (sols, e)" by simp
        then show ?thesis by (rule ih)
      next
        case True
        have inv: "Inv (a(var \<mapsto> val)) nu"
        proof (rule Cons.prems(1))
          show "val \<in> set (val # vals)" by simp
          show "next_unassigned csp cfg var val m = Inr nu" by (rule Inr)
          show "recurse_condition csp cfg var (a(var \<mapsto> val)) nu = Inr True"
            using b True by simp
        qed
        from Cons.prems(2) Inr b True
        obtain sols1 e1 where r1: "rec (a(var \<mapsto> val)) nu = Some (sols1, e1)"
          by (cases "rec (a(var \<mapsto> val)) nu") auto
        note q1 = rec [OF r1 inv]
        show ?thesis
        proof (cases e1)
          case (Some err)
          with Cons.prems(2) Inr b True r1 have "sols = sols1" by simp
          with q1 show ?thesis by simp
        next
          case None
          with Cons.prems(2) Inr b True r1
          obtain sols2 e2 where f2: "for_values_outcome rec csp cfg a m var vals = Some (sols2, e2)"
            by (cases "for_values_outcome rec csp cfg a m var vals") auto
          note q2 = ih [OF f2]
          from Cons.prems(2) Inr b True r1 None f2 have "sols = sols1 @ sols2" by simp
          with q1 q2 show ?thesis by auto
        qed
      qed
    qed
  qed
qed

lemma search_outcome_invariant:
  assumes leaf: "\<And>a u. Inv a u \<Longrightarrow> falsy u \<Longrightarrow> Q a"
    and step: "\<And>a m var vals val nu. Inv a (Some m) \<Longrightarrow> dom m \<noteq> {} \<Longrightarrow>
                 sel (search_strategy cfg) (order_domain cfg) m = (var, vals) \<Longrightarrow> val \<in> set vals \<Longrightarrow>
                 next_unassigned csp cfg var val m = Inr nu \<Longrightarrow>
                 recurse_condition csp cfg var (a(var \<mapsto> val)) nu = Inr True \<Longrightarrow>
                 Inv (a(var \<mapsto> val)) nu"
  shows "search_outcome n csp sel cfg a u = Some (sols, e) \<Longrightarrow> Inv a u \<Longrightarrow> \<forall>s\<in>set sols. Q s"
proof (induction n arbitrary: a u sols e)
  case 0
  then show ?case by simp
next
  case (Suc n)
  show ?case
  proof (cases "falsy u")
    case True
    with Suc.prems(1) have "sols = [a]"
      by (auto simp: falsy_def split: option.splits)
    with leaf [OF Suc.prems(2) True] show ?thesis by simp
  next
    case False
    then obtain m where u: "u = Some m" and ne: "dom m \<noteq> {}"
      by (auto simp: falsy_def split: option.splits)
    obtain var vals where sel: "sel (search_strategy cfg) (order_domain cfg) m = (var, vals)"
      by (cases "sel (search_strategy cfg) (order_domain cfg) m") auto
    from Suc.prems(1) u ne sel
    have run: "for_values_outcome (search_outcome n csp sel cfg) csp cfg a m var vals = Some (sols, e)"
      by simp
    have inv: "Inv a (Some m)" using Suc.prems(2) u by simp
    show ?thesis
      by (rule for_values_outcome_invariant [where Inv = Inv, OF Suc.IH _ run])
         (auto intro: step [OF inv ne sel])
  qed
qed

text \<open>Transfer to the run itself.\<close>

lemma search_invariant:
  assumes leaf: "\<And>a u. Inv a u \<Longrightarrow> falsy u \<Longrightarrow> Q a"
    and step: "\<And>a m var vals val nu. Inv a (Some m) \<Longrightarrow> dom m \<noteq> {} \<Longrightarrow>
                 sel (search_strategy cfg) (order_domain cfg) m = (var, vals) \<Longrightarrow> val \<in> set vals \<Longrightarrow>
                 next_unassigned csp cfg var val m = Inr nu \<Longrightarrow>
                 recurse_condition csp cfg var (a(var \<mapsto> val)) nu = Inr True \<Longrightarrow>
                 Inv (a(var \<mapsto> val)) nu"
    and run: "backtracking_search n sel cfg a u (csp, out) = Some (sols, e, w')"
    and inv: "Inv a u"
  shows "\<forall>s\<in>set sols. Q s"
proof -
  from search_refines [of "(csp, out)" csp n sel cfg a u] run
  have "search_outcome n csp sel cfg a u = Some (sols, e)"
    by (simp add: outcome_of_def)
  from search_outcome_invariant [where Inv = Inv and Q = Q, OF leaf step this inv]
  show ?thesis by simp
qed

section \<open>The example problems\<close>

lemma ex_var: "(\<exists>v::var. P v) = (P A \<or> P B \<or> P C)"
  by (metis var.exhaust)

lemma forward_check_Some:
  assumes "forward_check vs sat var val u = Some m'"
  shows "\<exists>m. u = Some m \<and> dom m' = dom m - {var}
           \<and> (\<forall>x D'. m' x = Some D' \<longrightarrow> (\<exists>D. m x = Some D \<and> D' \<subseteq> D))"
proof (cases u)
  case None
  with assms show ?thesis by (simp add: forward_check_def)
next
  case (Some m)
  let ?m = "\<lambda>x. if x = var then None
                 else if x \<in> set vs then map_option (Set.filter (\<lambda>w. sat [var \<mapsto> val, x \<mapsto> w])) (m x)
                 else m x"
  from assms Some have m': "m' = ?m"
    by (simp add: forward_check_def Let_def split: if_splits)
  have "dom ?m = dom m - {var}"
    by (auto simp: dom_def split: if_splits)
  moreover have "\<exists>D. m x = Some D \<and> D' \<subseteq> D" if "?m x = Some D'" for x D'
    using that by (auto split: if_splits)
  ultimately show ?thesis using Some m' by blast
qed

lemma neq_conforms: "conforms (neq_constraint x y)"
proof -
  have "sat_unassigned (neq_constraint x y)"
    by (auto simp: sat_unassigned_def neq_constraint_def neq_satisfied_def split: option.splits)
  moreover have "sat_local (neq_constraint x y)"
    by (simp add: sat_local_def neq_constraint_def neq_satisfied_def split: option.splits)
  moreover have "propagate (neq_constraint x y)
      = forward_check (cvariables (neq_constraint x y)) (satisfied (neq_constraint x y))"
    by (simp add: neq_constraint_def)
  ultimately show ?thesis by (simp add: conforms_def)
qed

lemma differs_conforms: "conforms (differs_constraint x k)"
proof -
  have "sat_unassigned (differs_constraint x k)"
    by (simp add: sat_unassigned_def differs_constraint_def differs_satisfied_def)
  moreover have "sat_local (differs_constraint x k)"
    by (simp add: sat_local_def differs_constraint_def differs_satisfied_def)
  moreover have "propagate (differs_constraint x k)
      = forward_check (cvariables (differs_constraint x k)) (satisfied (differs_constraint x k))"
    by (simp add: differs_constraint_def)
  ultimately show ?thesis by (simp add: conforms_def)
qed

lemma conforms_only_removes:
  assumes "conforms c"
  shows "only_removes c"
  unfolding only_removes_def
proof (intro allI impI)
  fix var val u m'
  assume "propagate c var val u = Some m'"
  with assms have "forward_check (cvariables c) (satisfied c) var val u = Some m'"
    by (simp add: conforms_def)
  from forward_check_Some [OF this]
  obtain m where "u = Some m"
    and "\<forall>x D'. m' x = Some D' \<longrightarrow> (\<exists>D. m x = Some D \<and> D' \<subseteq> D)"
    by (elim exE conjE)
  then show "\<exists>m. u = Some m \<and> (\<forall>x D'. m' x = Some D' \<longrightarrow> (\<exists>D. m x = Some D \<and> D' \<subseteq> D))"
    by (intro exI conjI)
qed

lemma select_first_selects: "selects_from_snapshot select_first"
  unfolding selects_from_snapshot_def
proof (intro allI impI)
  fix s :: string and od :: bool and m :: "(var, int) domain_map" and var vals
  assume ne: "dom m \<noteq> {}" and sel: "select_first s od m = (var, vals)"
  define v where "v = (if m A \<noteq> None then A else if m B \<noteq> None then B else C)"
  from ne obtain x where x: "m x \<noteq> None" by (auto simp: dom_def)
  have "m A \<noteq> None \<or> m B \<noteq> None \<or> m C \<noteq> None"
    using x by (cases x) simp_all
  then have "m v \<noteq> None" by (auto simp: v_def)
  then obtain D where D: "m v = Some D" by (cases "m v") simp_all
  have "select_first s od m = (v, case m v of None \<Rightarrow> [] | Some D \<Rightarrow> sorted_list_of_set D)"
    unfolding select_first_def v_def Let_def ..
  then have "select_first s od m = (v, sorted_list_of_set D)"
    using D by simp
  with sel have var: "var = v" and vals: "vals = sorted_list_of_set D" by simp_all
  have "set (sorted_list_of_set D) \<subseteq> D"
    by (cases "finite D") (simp_all add: sorted_list_of_set.fold_insort_key.infinite)
  with D var vals show "\<exists>D. m var = Some D \<and> set vals \<subseteq> D" by simp
qed

lemma two_variables_constructed:
  fixes doms :: "(var, int) domain_map"
  assumes "doms A \<noteq> None" and "doms B \<noteq> None"
  shows "constructed \<lparr>variables = [A, B], domains = doms,
           constraints = [A \<mapsto> [neq_constraint A B], B \<mapsto> [neq_constraint A B]],
           low_mark = 2, count = 0\<rparr>"
proof -
  let ?c0 = "\<lparr>variables = [A, B], domains = doms,
              constraints = [A \<mapsto> [], B \<mapsto> []], low_mark = 2, count = 0\<rparr>
             :: (var, int) CSP"
  have "CSP_init [A, B] doms = Inr ?c0"
    using assms by (auto simp: CSP_init_result fun_eq_iff)
  then have c0: "constructed ?c0" by (rule constructed.init)
  have "add_constraint ?c0 (neq_constraint A B)
          = (\<lparr>variables = [A, B], domains = doms,
               constraints = [A \<mapsto> [neq_constraint A B], B \<mapsto> [neq_constraint A B]],
               low_mark = 2, count = 0\<rparr>, None)"
    by (simp add: add_constraint_def neq_constraint_def fun_upd_twist)
  with c0 show ?thesis by (rule constructed.add)
qed

lemma csp_unsat_constructed: "constructed csp_unsat"
  unfolding csp_unsat_def by (rule two_variables_constructed) (simp_all add: doms_unsat_def)

lemma csp_sat_constructed: "constructed csp_sat"
  unfolding csp_sat_def by (rule two_variables_constructed) (simp_all add: doms_sat_def)

lemma csp_hollow_constructed: "constructed csp_hollow"
  unfolding csp_hollow_def by (rule two_variables_constructed) (simp_all add: doms_hollow_def)

lemma csp_unary_constructed: "constructed csp_unary"
proof -
  let ?c0 = "\<lparr>variables = [A, B], domains = doms_unary,
              constraints = [A \<mapsto> [], B \<mapsto> []], low_mark = 2, count = 0\<rparr>
             :: (var, int) CSP"
  let ?c1 = "\<lparr>variables = [A, B], domains = doms_unary,
              constraints = [A \<mapsto> [differs_constraint A 3], B \<mapsto> []], low_mark = 2, count = 0\<rparr>
             :: (var, int) CSP"
  have "CSP_init [A, B] doms_unary = Inr ?c0"
    by (auto simp: CSP_init_result fun_eq_iff doms_unary_def)
  then have c0: "constructed ?c0" by (rule constructed.init)
  have "add_constraint ?c0 (differs_constraint A 3) = (?c1, None)"
    by (simp add: add_constraint_def differs_constraint_def fun_upd_twist)
  with c0 have c1: "constructed ?c1" by (rule constructed.add)
  have "add_constraint ?c1 (neq_constraint A B) = (csp_unary, None)"
    by (simp add: add_constraint_def neq_constraint_def csp_unary_def fun_upd_twist)
  with c1 show ?thesis by (rule constructed.add)
qed

subsection \<open>The unsatisfiable example\<close>

lemma sel_unsat: "select_first s od doms_unsat = (A, [1])"
  by (simp add: select_first_def doms_unsat_def)

lemma ne_unsat: "doms_unsat \<noteq> Map.empty"
  by (simp add: doms_unsat_def)

lemma dom_unsat: "dom doms_unsat = {A, B}"
  by (auto simp: doms_unsat_def)

lemma chain_unsat: "propagate (neq_constraint A B) A 1 (Some doms_unsat) = None"
  by (simp add: doms_unsat_def neq_constraint_def forward_check_def neq_satisfied_def
        ex_var Let_def)

lemma nu_unsat: "next_unassigned csp_unsat default_config A 1 doms_unsat = Inr None"
  by (simp add: next_unassigned_def csp_unsat_def default_config_def chain_unsat)

lemma nu_unsat_checking: "next_unassigned csp_unsat checking_config A 1 doms_unsat = Inr None"
  by (simp add: next_unassigned_def csp_unsat_def checking_config_def chain_unsat)

lemma rc_unsat: "recurse_condition csp_unsat cfg A [A \<mapsto> 1] None = Inr True"
  by (simp add: recurse_condition_def falsy_def consistent_def csp_unsat_def
        neq_constraint_def neq_satisfied_def)

lemma outcome_unsat:
  "search_outcome 2 csp_unsat select_first default_config Map.empty (Some doms_unsat)
     = Some ([[A \<mapsto> 1]], None)"
  by (simp add: numeral_2_eq_2 sel_unsat nu_unsat rc_unsat ne_unsat)

lemma outcome_unsat_checking:
  "search_outcome 2 csp_unsat select_first checking_config Map.empty (Some doms_unsat)
     = Some ([[A \<mapsto> 1]], None)"
  by (simp add: numeral_2_eq_2 sel_unsat nu_unsat_checking rc_unsat ne_unsat)

lemma progress_unsat:
  "progress 2 (csp_unsat, []) = (csp_unsat\<lparr>low_mark := 2, count := 1\<rparr>, [(2, '' '')])"
  by (simp add: progress_def csp_unsat_def Let_def)

lemma loop_unsat:
  assumes "constraints csp' = constraints csp_unsat"
  shows "for_values (backtracking_search (Suc 0) select_first default_config) default_config
           Map.empty doms_unsat A [1] (csp', out)
         = Some ([[A \<mapsto> 1]], None, (csp', out))"
  by (simp add: nu_unsat rc_unsat next_unassigned_cong [OF assms] recurse_condition_cong [OF assms])

lemma run_unsat:
  "backtracking_search 2 select_first default_config Map.empty (Some doms_unsat) (csp_unsat, [])
     = Some ([[A \<mapsto> 1]], None, (csp_unsat\<lparr>low_mark := 2, count := 1\<rparr>, [(2, '' '')]))"
proof -
  have p: "progress (card (dom doms_unsat)) (csp_unsat, [])
             = (csp_unsat\<lparr>low_mark := 2, count := 1\<rparr>, [(2, '' '')])"
    by (simp add: dom_unsat progress_def csp_unsat_def Let_def)
  have c: "constraints (csp_unsat\<lparr>low_mark := 2, count := 1\<rparr>) = constraints csp_unsat"
    by simp
  have "backtracking_search (Suc (Suc 0)) select_first default_config Map.empty (Some doms_unsat)
          (csp_unsat, [])
        = for_values (backtracking_search (Suc 0) select_first default_config) default_config
            Map.empty doms_unsat A [1] (progress (card (dom doms_unsat)) (csp_unsat, []))"
    by (simp add: sel_unsat ne_unsat Let_def del: for_values.simps)
  also have "\<dots> = Some ([[A \<mapsto> 1]], None, (csp_unsat\<lparr>low_mark := 2, count := 1\<rparr>, [(2, '' '')]))"
    unfolding p by (rule loop_unsat [OF c])
  finally show ?thesis by (simp add: numeral_2_eq_2)
qed

text \<open>
  C2. With propagation enabled, binding \<open>A\<close> to \<open>1\<close> in the unsatisfiable example empties
  the domain of \<open>B\<close>: the propagation chain yields \<open>None\<close>. The condition of line 81 then
  falls through to \<open>consistent\<close>, which holds because \<open>B\<close> is unassigned, so the search
  recurses on the branch, with either setting of \<open>check_constraints\<close>, and the recursive
  call, seeing a false \<open>unassigned\<close>, yields the partial assignment.
\<close>

theorem empty_domain_branch_not_pruned:
  "next_unassigned csp_unsat default_config A 1 doms_unsat = Inr None
   \<and> next_unassigned csp_unsat checking_config A 1 doms_unsat = Inr None
   \<and> recurse_condition csp_unsat default_config A [A \<mapsto> 1] None = Inr True
   \<and> recurse_condition csp_unsat checking_config A [A \<mapsto> 1] None = Inr True
   \<and> map_option outcome_of
        (for_values (backtracking_search (Suc 0) select_first default_config) default_config
           Map.empty doms_unsat A [1] (csp_unsat, []))
       = Some ([[A \<mapsto> 1]], None)
   \<and> map_option outcome_of
        (for_values (backtracking_search (Suc 0) select_first checking_config) checking_config
           Map.empty doms_unsat A [1] (csp_unsat, []))
       = Some ([[A \<mapsto> 1]], None)"
  by (simp add: nu_unsat nu_unsat_checking rc_unsat outcome_of_def)

text \<open>
  C3. On the unsatisfiable example of the specification the search, called with its default
  arguments, returns normally but yields one assignment, \<open>{A: 1}\<close>, instead of none.
\<close>

theorem unsatisfiable_example_yields:
  "backtracking_search 2 select_first default_config Map.empty (Some doms_unsat) (csp_unsat, [])
     = Some ([[A \<mapsto> 1]], None, (csp_unsat\<lparr>low_mark := 2, count := 1\<rparr>, [(2, '' '')]))"
  by (rule run_unsat)

text \<open>
  C1. The assignment that the search yields on that example gives \<open>A\<close> the value \<open>1\<close> of
  its domain and gives \<open>B\<close>, a variable of the problem, no value at all. The same happens
  with the secondary check switched on.
\<close>

theorem yielded_assignment_incomplete:
  "variables csp_unsat = [A, B]
   \<and> map_option (map (\<lambda>s. (s A, s B)) \<circ> fst)
        (backtracking_search 2 select_first default_config Map.empty (Some doms_unsat)
           (csp_unsat, []))
       = Some [(Some 1, None)]
   \<and> map_option (map (\<lambda>s. (s A, s B)) \<circ> fst)
        (backtracking_search 2 select_first checking_config Map.empty (Some doms_unsat)
           (csp_unsat, []))
       = Some [(Some 1, None)]"
proof -
  from search_refines [of "(csp_unsat, [])" csp_unsat 2 select_first default_config
         Map.empty "Some doms_unsat"]
  have 1: "map_option outcome_of (backtracking_search 2 select_first default_config Map.empty
             (Some doms_unsat) (csp_unsat, [])) = Some ([[A \<mapsto> 1]], None)"
    by (simp add: outcome_unsat)
  from search_refines [of "(csp_unsat, [])" csp_unsat 2 select_first checking_config
         Map.empty "Some doms_unsat"]
  have 2: "map_option outcome_of (backtracking_search 2 select_first checking_config Map.empty
             (Some doms_unsat) (csp_unsat, [])) = Some ([[A \<mapsto> 1]], None)"
    by (simp add: outcome_unsat_checking)
  from 1 2 show ?thesis
    by (auto simp: outcome_of_def csp_unsat_def)
qed

section \<open>Determinism\<close>

text \<open>
  C8. A second invocation on the same object, with the same assignment, snapshot,
  selection policy and keyword arguments, yields the same assignments in the same order
  and ends the same way, although the first invocation has changed \<open>low_mark\<close> and \<open>count\<close>;
  what has been printed before does not matter either.
\<close>

theorem search_deterministic:
  assumes "backtracking_search n sel cfg a u (csp, out) = Some (sols, e, (csp', out'))"
  shows "\<exists>csp'' out''. backtracking_search n sel cfg a u (csp', out2)
                          = Some (sols, e, (csp'', out''))"
proof -
  from search_refines [of "(csp, out)" csp n sel cfg a u] assms
  have o: "search_outcome n csp sel cfg a u = Some (sols, e)"
    and c: "constraints csp' = constraints csp"
    by (simp_all add: outcome_of_def)
  from search_refines [of "(csp', out2)" csp n sel cfg a u] c o
  have "map_option outcome_of (backtracking_search n sel cfg a u (csp', out2)) = Some (sols, e)"
    by simp
  then obtain r where r: "backtracking_search n sel cfg a u (csp', out2) = Some r"
    and "outcome_of r = (sols, e)"
    by auto
  then obtain csp'' out'' where "r = (sols, e, (csp'', out''))"
    by (cases r) (auto simp: outcome_of_def)
  with r show ?thesis by blast
qed

theorem search_deterministic_witness:
  "backtracking_search 2 select_first default_config Map.empty (Some doms_unsat) (csp_unsat, [])
     = Some ([[A \<mapsto> 1]], None, (csp_unsat\<lparr>low_mark := 2, count := 1\<rparr>, [(2, '' '')]))
   \<and> (\<exists>csp'' out''.
        backtracking_search 2 select_first default_config Map.empty (Some doms_unsat)
          (csp_unsat\<lparr>low_mark := 2, count := 1\<rparr>, [(2, '' '')])
        = Some ([[A \<mapsto> 1]], None, (csp'', out'')))"
  using search_deterministic [OF run_unsat, of "[(2, '' '')]"] run_unsat
  by simp

section \<open>Termination\<close>

lemma for_values_outcome_returns:
  assumes "\<And>val nu. val \<in> set vals \<Longrightarrow> next_unassigned csp cfg var val m = Inr nu \<Longrightarrow>
             rec (a(var \<mapsto> val)) nu \<noteq> None"
  shows "for_values_outcome rec csp cfg a m var vals \<noteq> None"
  using assms
proof (induction vals)
  case Nil
  show ?case by simp
next
  case (Cons val vals)
  have ih: "for_values_outcome rec csp cfg a m var vals \<noteq> None"
  proof (rule Cons.IH)
    fix val' nu
    assume "val' \<in> set vals" and nu: "next_unassigned csp cfg var val' m = Inr nu"
    then have "val' \<in> set (val # vals)" by simp
    then show "rec (a(var \<mapsto> val')) nu \<noteq> None" using nu by (rule Cons.prems)
  qed
  show ?case
  proof (cases "next_unassigned csp cfg var val m")
    case (Inl err)
    then show ?thesis by simp
  next
    case (Inr nu)
    have "val \<in> set (val # vals)" by simp
    then have r: "rec (a(var \<mapsto> val)) nu \<noteq> None" using Inr by (rule Cons.prems)
    then obtain sols e where r': "rec (a(var \<mapsto> val)) nu = Some (sols, e)" by auto
    from ih obtain sols2 e2 where f: "for_values_outcome rec csp cfg a m var vals = Some (sols2, e2)"
      by auto
    show ?thesis
      using Inr r' f
      by (simp split: sum.splits option.splits)
  qed
qed

lemma search_outcome_returns:
  assumes sh: "shrinking csp sel cfg"
  shows "finite (dom m) \<Longrightarrow> card (dom m) < n \<Longrightarrow> search_outcome n csp sel cfg a (Some m) \<noteq> None"
proof (induction n arbitrary: a m)
  case 0
  then show ?case by simp
next
  case (Suc n)
  show ?case
  proof (cases "dom m = {}")
    case True
    then show ?thesis by simp
  next
    case False
    obtain var vals where sel: "sel (search_strategy cfg) (order_domain cfg) m = (var, vals)"
      by (cases "sel (search_strategy cfg) (order_domain cfg) m") auto
    note shr = sh [unfolded shrinking_def, rule_format, OF False sel]
    from shr have var: "var \<in> dom m" by (rule conjunct1)
    from shr have all: "\<forall>val\<in>set vals. \<forall>m'. next_unassigned csp cfg var val m = Inr (Some m')
                  \<longrightarrow> dom m' \<subseteq> dom m - {var}" by (rule conjunct2)
    note sub = all [rule_format]
    from False Suc.prems have pos: "0 < card (dom m)" by (simp add: card_gt_0_iff)
    with Suc.prems obtain k where k: "n = Suc k" by (cases n) auto
    have "for_values_outcome (search_outcome n csp sel cfg) csp cfg a m var vals \<noteq> None"
    proof (rule for_values_outcome_returns)
      fix val nu
      assume val: "val \<in> set vals" and nu: "next_unassigned csp cfg var val m = Inr nu"
      show "search_outcome n csp sel cfg (a(var \<mapsto> val)) nu \<noteq> None"
      proof (cases nu)
        case None
        then show ?thesis using k by simp
      next
        case (Some m')
        with sub [OF val] nu have d: "dom m' \<subseteq> dom m - {var}" by simp
        with var have "dom m' \<subset> dom m" by blast
        with Suc.prems(1) have "card (dom m') < card (dom m)" by (rule psubset_card_mono)
        moreover from d Suc.prems(1) have "finite (dom m')" by (auto intro: finite_subset)
        ultimately show ?thesis using Suc.IH [of m'] Suc.prems(2) Some by simp
      qed
    qed
    then show ?thesis using False sel by simp
  qed
qed

text \<open>
  C9. Let the unassigned snapshot have finitely many variables, and let the selection policy
  return a variable of the snapshot while every snapshot handed to a recursive call has
  lost that variable and gained none. Then the search returns, and it needs no more
  nested calls than there are unassigned variables, plus the call at the leaf: every
  depth bound from that number on gives the same result.
\<close>

theorem search_terminates:
  assumes "finite (dom m)" and "shrinking csp sel cfg"
  shows "\<exists>r. \<forall>k\<ge>Suc (card (dom m)).
           backtracking_search k sel cfg a (Some m) (csp, out) = Some r"
proof -
  let ?n = "Suc (card (dom m))"
  from search_outcome_returns [OF assms(2) assms(1), of ?n a]
  have "search_outcome ?n csp sel cfg a (Some m) \<noteq> None" by simp
  with search_refines [of "(csp, out)" csp ?n sel cfg a "Some m"]
  obtain r where r: "backtracking_search ?n sel cfg a (Some m) (csp, out) = Some r"
    by (cases "backtracking_search ?n sel cfg a (Some m) (csp, out)") auto
  have "\<forall>k\<ge>?n. backtracking_search k sel cfg a (Some m) (csp, out) = Some r"
    using search_mono [OF r] by blast
  then show ?thesis ..
qed

subsection \<open>The satisfiable example\<close>

lemma sel_sat: "select_first s od doms_sat = (A, [1, 2])"
  by (simp add: select_first_def doms_sat_def)

lemma sel_rest: "select_first s od [B \<mapsto> {w}] = (B, [w])"
  by (simp add: select_first_def)

lemma ne_sat: "doms_sat \<noteq> Map.empty"
  by (simp add: doms_sat_def)

lemma chain_sat_1: "propagate (neq_constraint A B) A 1 (Some doms_sat) = Some [B \<mapsto> {2}]"
proof -
  have e: "\<exists>x::int. (x = 1 \<or> x = 2) \<and> x \<noteq> 1" by (rule exI [of _ 2]) simp
  have f: "{a::int. (a = 1 \<or> a = 2) \<and> a \<noteq> 1} = {2}" by auto
  show ?thesis
    by (simp add: doms_sat_def neq_constraint_def forward_check_def neq_satisfied_def ex_var
          Let_def fun_eq_iff e f)
qed

lemma chain_sat_2: "propagate (neq_constraint A B) A 2 (Some doms_sat) = Some [B \<mapsto> {1}]"
proof -
  have e: "\<exists>x::int. (x = 1 \<or> x = 2) \<and> x \<noteq> 2" by (rule exI [of _ 1]) simp
  have f: "{a::int. (a = 1 \<or> a = 2) \<and> a \<noteq> 2} = {1}" by auto
  show ?thesis
    by (simp add: doms_sat_def neq_constraint_def forward_check_def neq_satisfied_def ex_var
          Let_def fun_eq_iff e f)
qed

lemma chain_rest: "propagate (neq_constraint A B) B w (Some [B \<mapsto> {w}]) = Some Map.empty"
  by (simp add: neq_constraint_def forward_check_def neq_satisfied_def ex_var Let_def fun_eq_iff)

lemma nu_sat_1: "next_unassigned csp_sat default_config A 1 doms_sat = Inr (Some [B \<mapsto> {2}])"
  by (simp add: next_unassigned_def csp_sat_def default_config_def chain_sat_1)

lemma nu_sat_2: "next_unassigned csp_sat default_config A 2 doms_sat = Inr (Some [B \<mapsto> {1}])"
  by (simp add: next_unassigned_def csp_sat_def default_config_def chain_sat_2)

lemma nu_rest: "next_unassigned csp_sat default_config B w [B \<mapsto> {w}] = Inr (Some Map.empty)"
  by (simp add: next_unassigned_def csp_sat_def default_config_def chain_rest)

lemma rc_sat: "recurse_condition csp_sat default_config A ext (Some [B \<mapsto> D]) = Inr True"
  by (simp add: recurse_condition_def falsy_def default_config_def)

lemma rc_rest:
  "v \<noteq> w \<Longrightarrow>
   recurse_condition csp_sat default_config B [A \<mapsto> v, B \<mapsto> w] (Some Map.empty) = Inr True"
  by (simp add: recurse_condition_def falsy_def consistent_def csp_sat_def
        neq_constraint_def neq_satisfied_def)

lemma outcome_sat:
  "search_outcome 3 csp_sat select_first default_config Map.empty (Some doms_sat)
     = Some ([[A \<mapsto> 1, B \<mapsto> 2], [A \<mapsto> 2, B \<mapsto> 1]], None)"
  by (simp add: numeral_3_eq_3 sel_sat sel_rest nu_sat_1 nu_sat_2 nu_rest rc_sat rc_rest ne_sat)

lemma dom_sat: "dom doms_sat = {A, B}"
  by (auto simp: doms_sat_def)

lemma two_variables_shrinking:
  assumes c: "constraints csp = [A \<mapsto> [neq_constraint A B], B \<mapsto> [neq_constraint A B]]"
  shows "shrinking csp select_first default_config"
  unfolding shrinking_def
proof (intro allI impI)
  fix m :: "(var, int) domain_map" and var vals
  assume ne: "dom m \<noteq> {}"
    and sel: "select_first (search_strategy default_config) (order_domain default_config) m
                = (var, vals)"
  from select_first_selects [unfolded selects_from_snapshot_def, rule_format, OF ne sel]
  obtain D where "m var = Some D" by (elim exE conjE)
  then have var: "var \<in> dom m" by (simp add: domI)
  have "dom m' \<subseteq> dom m - {var}"
    if nu: "next_unassigned csp default_config var val m = Inr (Some m')" for val m'
  proof (cases var)
    case A
    with nu c have "forward_check [A, B] (neq_satisfied A B) A val (Some m) = Some m'"
      by (simp add: next_unassigned_def default_config_def neq_constraint_def)
    from forward_check_Some [OF this] A show ?thesis by auto
  next
    case B
    with nu c have "forward_check [A, B] (neq_satisfied A B) B val (Some m) = Some m'"
      by (simp add: next_unassigned_def default_config_def neq_constraint_def)
    from forward_check_Some [OF this] B show ?thesis by auto
  next
    case C
    with nu c show ?thesis
      by (simp add: next_unassigned_def default_config_def)
  qed
  with var show "var \<in> dom m \<and>
      (\<forall>val\<in>set vals. \<forall>m'. next_unassigned csp default_config var val m = Inr (Some m')
          \<longrightarrow> dom m' \<subseteq> dom m - {var})"
    by simp
qed

theorem search_terminates_witness:
  "finite (dom doms_sat) \<and> shrinking csp_sat select_first default_config
   \<and> (\<exists>r. \<forall>k\<ge>Suc (card (dom doms_sat)).
          backtracking_search k select_first default_config Map.empty (Some doms_sat)
            (csp_sat, []) = Some r)"
proof -
  have f: "finite (dom doms_sat)" by (simp add: dom_sat)
  have s: "shrinking csp_sat select_first default_config"
    by (rule two_variables_shrinking) (simp add: csp_sat_def)
  from search_terminates [OF f s] f s show ?thesis by blast
qed

end
